theory Spec2Isabelle
  imports Complex_Main "HOL-Library.AList"
begin

section \<open>Python values and errors\<close>

text \<open>
  Exceptions are values. \<open>reason\<close> is the content of an exception (the message of the
  source, with its arguments), \<open>pyerror\<close> its class. The source raises its contract
  violations with \<^verbatim>\<open>assert cond, ValueError(...)\<close>: the exception that reaches the
  caller is an \<open>AssertionError\<close> whose argument is the \<open>ValueError\<close> (or \<open>TypeError\<close>)
  object, which is what \<open>AssertionError e\<close> stands for. \<open>IndexError\<close> is what
  \<^verbatim>\<open>path[-1]\<close> raises on an empty tuple.

  The tries of the model are typed: a slot of a dict holds either a dict or a posting
  list. \<open>IllTyped\<close> is the outcome of the model where the source would meet a posting
  list in the place of a dict, or a dict in the place of a posting list; what Python does
  there depends on the type of the keys and is not modelled. Theorem \<open>wf_insert\<close> below
  shows that no index built by the constructor and \<open>insert\<close> gets there.
\<close>

datatype reason =
    ThresholdRange
  | TooFewPermutations
  | WeightRange
  | WeightSum
  | ParamsProduct int int int int
  | UnpackWeights
  | LengthMismatch int nat
  | KeyExists
  | NotIterableGiven

datatype pyerror =
    ValueError reason
  | TypeError reason
  | AssertionError pyerror
  | IndexError
  | IllTyped

text \<open>
  \<^verbatim>\<open>xs[start:end]\<close> with Python's rules: a negative bound counts from the end, and
  every bound is clamped into \<open>[0, len(xs)]\<close>.
\<close>

definition clamp_index :: "nat \<Rightarrow> int \<Rightarrow> nat" where
  "clamp_index n i = (if i < 0 then nat (max 0 (int n + i)) else min (nat i) n)"

definition py_slice :: "'a list \<Rightarrow> int \<Rightarrow> int \<Rightarrow> 'a list" where
  "py_slice xs start stop =
     (let lo = clamp_index (length xs) start; hi = clamp_index (length xs) stop
      in take (hi - lo) (drop lo xs))"

text \<open>
  \<^verbatim>\<open>sum(weights)\<close>: a left fold from 0. The weights are floats; a finite float is
  modelled by the real number it denotes, on which the comparisons of the source are
  exact, and the rounding addition of floats is the parameter \<open>fadd\<close>.
\<close>

definition py_sum :: "(real \<Rightarrow> real \<Rightarrow> real) \<Rightarrow> real list \<Rightarrow> real" where
  "py_sum fadd ws = foldl fadd 0 ws"

section \<open>The banded trie index (lsh\_trie.py)\<close>

text \<open>
  A dict is an association list: \<open>map_of\<close> reads it, \<open>AList.update\<close> writes it (in
  place for a label that is present, at the end for a new one, as Python's dict does).
  The labels are Python integers: the band index and the hash values of the band.
\<close>

datatype 'k trie = Dict "(int \<times> 'k trie) list" | Posting "'k list"

type_synonym 'k pydict = "(int \<times> 'k trie) list"

record 'k lsh =
  h :: int
  b :: int
  r :: int
  hashranges :: "(int \<times> int) list"
  root :: "'k pydict"
  keys :: "'k set"

definition new_index :: "int \<Rightarrow> int \<Rightarrow> int \<Rightarrow> 'k lsh" where
  "new_index num_perm pb pr =
     \<lparr> h = num_perm, b = pb, r = pr,
       hashranges = map (\<lambda>i. (i * pr, (i + 1) * pr)) [0..pb - 1],
       root = [], keys = {} \<rparr>"

text \<open>
  \<open>__init__\<close>. \<open>optimal_param\<close> stands for \<^verbatim>\<open>datasketch.lsh._optimal_param\<close>, which is
  not part of these sources. \<open>params\<close> is \<open>None\<close> or a pair.
\<close>

definition init ::
  "(real \<Rightarrow> real \<Rightarrow> real) \<Rightarrow> (real \<Rightarrow> int \<Rightarrow> real \<Rightarrow> real \<Rightarrow> int \<times> int) \<Rightarrow>
   real \<Rightarrow> int \<Rightarrow> real list \<Rightarrow> (int \<times> int) option \<Rightarrow> pyerror + 'k lsh" where
  "init fadd optimal_param threshold num_perm weights params =
     (if threshold > 1 \<or> threshold < 0 then Inl (ValueError ThresholdRange)
      else if num_perm < 2 then Inl (ValueError TooFewPermutations)
      else if list_ex (\<lambda>w. w < 0 \<or> w > 1) weights then Inl (ValueError WeightRange)
      else if py_sum fadd weights \<noteq> 1 then Inl (ValueError WeightSum)
      else (case params of
              Some (pb, pr) \<Rightarrow>
                if pb * pr > num_perm
                then Inl (ValueError (ParamsProduct pb pr (pb * pr) num_perm))
                else Inr (new_index num_perm pb pr)
            | None \<Rightarrow>
                (case weights of
                   [false_positive_weight, false_negative_weight] \<Rightarrow>
                     (case optimal_param threshold num_perm
                             false_positive_weight false_negative_weight of
                        (nb, nr) \<Rightarrow> Inr (new_index num_perm nb nr))
                 | _ \<Rightarrow> Inl (ValueError UnpackWeights))))"

text \<open>
  The paths of a signature: \<^verbatim>\<open>tuple([i] + hashvalues[start:end].tolist())\<close> for every
  \<open>(i, (start, end))\<close> of \<^verbatim>\<open>enumerate(self.hashranges)\<close>.
\<close>

definition band_paths :: "(int \<times> int) list \<Rightarrow> int list \<Rightarrow> int list list" where
  "band_paths ranges hashvalues =
     map (\<lambda>(i, (start, stop)). int i # py_slice hashvalues start stop)
         (List.enumerate 0 ranges)"

text \<open>
  The body of the loop of \<open>insert\<close> over one path. The source walks a pointer \<open>cur\<close>
  down the nested dicts, creating the missing ones, and mutates the last dict in place;
  the model rebuilds the dicts on the way back. \<open>insert_nodes\<close> is the walk over
  \<^verbatim>\<open>path[:-1]\<close> followed by the write at \<open>leaf\<close>.
\<close>

fun insert_nodes :: "int list \<Rightarrow> int \<Rightarrow> 'k \<Rightarrow> 'k pydict \<Rightarrow> pyerror + 'k pydict" where
  "insert_nodes [] leaf key cur =
     (case map_of cur leaf of
        Some (Posting ks) \<Rightarrow> Inr (AList.update leaf (Posting (ks @ [key])) cur)
      | Some (Dict d) \<Rightarrow> Inl IllTyped
      | None \<Rightarrow> Inr (AList.update leaf (Posting [key]) cur))"
| "insert_nodes (node # nodes) leaf key cur =
     (case map_of cur node of
        None \<Rightarrow>
          (case insert_nodes nodes leaf key [] of
             Inl e \<Rightarrow> Inl e
           | Inr d' \<Rightarrow> Inr (AList.update node (Dict d') cur))
      | Some (Dict d) \<Rightarrow>
          (case insert_nodes nodes leaf key d of
             Inl e \<Rightarrow> Inl e
           | Inr d' \<Rightarrow> Inr (AList.update node (Dict d') cur))
      | Some (Posting ks) \<Rightarrow> Inl IllTyped)"

definition insert_path :: "int list \<Rightarrow> 'k \<Rightarrow> 'k pydict \<Rightarrow> pyerror + 'k pydict" where
  "insert_path path key cur =
     (if path = [] then Inl IndexError
      else insert_nodes (butlast path) (last path) key cur)"

text \<open>
  The loop over the paths. An exception leaves behind the trie with the paths written
  so far: the first component of the result is the error, if any, the second the trie.
\<close>

fun insert_paths :: "int list list \<Rightarrow> 'k \<Rightarrow> 'k pydict \<Rightarrow> pyerror option \<times> 'k pydict" where
  "insert_paths [] key cur = (None, cur)"
| "insert_paths (path # paths) key cur =
     (case insert_path path key cur of
        Inl e \<Rightarrow> (Some e, cur)
      | Inr cur' \<Rightarrow> insert_paths paths key cur')"

text \<open>
  A method call returns its result, or the exception it raised, together with the state
  of the index after the call.
\<close>

definition insert_lsh ::
  "'k lsh \<Rightarrow> 'k \<Rightarrow> int list \<Rightarrow> bool \<Rightarrow> (pyerror + unit) \<times> 'k lsh" where
  "insert_lsh s key minhash check_duplication =
     (if int (length minhash) \<noteq> h s
      then (Inl (AssertionError (ValueError (LengthMismatch (h s) (length minhash)))), s)
      else if check_duplication \<and> key \<in> keys s
      then (Inl (AssertionError (ValueError KeyExists)), s)
      else (case insert_paths (band_paths (hashranges s) minhash) key (root s) of
              (Some e, root') \<Rightarrow> (Inl e, s\<lparr>root := root'\<rparr>)
            | (None, root') \<Rightarrow> (Inr (), s\<lparr>root := root', keys := insert key (keys s)\<rparr>)))"

text \<open>
  The body of the loop of \<open>query\<close> over one path: \<open>walk\<close> is the inner loop over
  \<^verbatim>\<open>path[:-1]\<close> (\<open>None\<close> is \<open>miss\<close>), \<open>query_nodes\<close> adds the test of the leaf
  and returns its posting list, or \<open>None\<close> where the source continues with the next
  path.
\<close>

fun walk :: "int list \<Rightarrow> 'k pydict \<Rightarrow> pyerror + 'k pydict option" where
  "walk [] cur = Inr (Some cur)"
| "walk (node # nodes) cur =
     (case map_of cur node of
        None \<Rightarrow> Inr None
      | Some (Dict d) \<Rightarrow> walk nodes d
      | Some (Posting ks) \<Rightarrow> Inl IllTyped)"

definition query_nodes :: "int list \<Rightarrow> int \<Rightarrow> 'k pydict \<Rightarrow> pyerror + 'k list option" where
  "query_nodes nodes leaf cur0 =
     (case walk nodes cur0 of
        Inl e \<Rightarrow> Inl e
      | Inr None \<Rightarrow> Inr None
      | Inr (Some cur) \<Rightarrow>
          (case map_of cur leaf of
             None \<Rightarrow> Inr None
           | Some (Posting ks) \<Rightarrow> Inr (Some ks)
           | Some (Dict d) \<Rightarrow> Inl IllTyped))"

definition query_path :: "int list \<Rightarrow> 'k pydict \<Rightarrow> pyerror + 'k list option" where
  "query_path path cur0 =
     (if path = [] then Inl IndexError
      else query_nodes (butlast path) (last path) cur0)"

text \<open>
  \<open>candidates\<close> is a Python set, of which the source returns \<^verbatim>\<open>list(candidates)\<close>. It is
  modelled by a list that \<open>set_update\<close> extends only with the elements it does not have
  yet. Python leaves the order of the returned list open; the order of the model has no
  meaning.
\<close>

definition set_update :: "'k list \<Rightarrow> 'k list \<Rightarrow> 'k list" where
  "set_update candidates ks = fold List.insert ks candidates"

fun query_paths :: "int list list \<Rightarrow> 'k pydict \<Rightarrow> 'k list \<Rightarrow> pyerror + 'k list" where
  "query_paths [] cur0 candidates = Inr candidates"
| "query_paths (path # paths) cur0 candidates =
     (case query_path path cur0 of
        Inl e \<Rightarrow> Inl e
      | Inr None \<Rightarrow> query_paths paths cur0 candidates
      | Inr (Some ks) \<Rightarrow> query_paths paths cur0 (set_update candidates ks))"

definition query :: "'k lsh \<Rightarrow> int list \<Rightarrow> (pyerror + 'k list) \<times> 'k lsh" where
  "query s minhash =
     (if int (length minhash) \<noteq> h s
      then (Inl (AssertionError (ValueError (LengthMismatch (h s) (length minhash)))), s)
      else (query_paths (band_paths (hashranges s) minhash) (root s) [], s))"

definition contains :: "'k lsh \<Rightarrow> 'k \<Rightarrow> bool" where
  "contains s key = (key \<in> keys s)"

text \<open>A sequence of \<open>insert\<close> calls, which stops at the first exception.\<close>

fun inserts ::
  "'k lsh \<Rightarrow> ('k \<times> int list \<times> bool) list \<Rightarrow> (pyerror + unit) \<times> 'k lsh" where
  "inserts s [] = (Inr (), s)"
| "inserts s ((key, minhash, check_duplication) # calls) =
     (case insert_lsh s key minhash check_duplication of
        (Inl e, s') \<Rightarrow> (Inl e, s')
      | (Inr u, s') \<Rightarrow> inserts s' calls)"

text \<open>
  An optimizer that returns a given pair, for the places where a concrete one is needed.
\<close>

definition fixed_param :: "int \<times> int \<Rightarrow> real \<Rightarrow> int \<Rightarrow> real \<Rightarrow> real \<Rightarrow> int \<times> int" where
  "fixed_param p threshold num_perm false_positive_weight false_negative_weight = p"

section \<open>The index as the specification describes it\<close>

text \<open>
  The posting list at the end of a path of labels, if the whole path is present in the
  trie and ends at a posting list.
\<close>

fun posting_at :: "'k trie \<Rightarrow> int list \<Rightarrow> 'k list option" where
  "posting_at (Posting ks) [] = Some ks"
| "posting_at (Posting ks) (l # ls) = None"
| "posting_at (Dict d) [] = None"
| "posting_at (Dict d) (l # ls) =
     (case map_of d l of None \<Rightarrow> None | Some t \<Rightarrow> posting_at t ls)"

text \<open>The path of band \<open>i\<close>: \<^verbatim>\<open>[i] ++ S[i*r:(i+1)*r]\<close>.\<close>

definition band_path :: "int \<Rightarrow> int list \<Rightarrow> int \<Rightarrow> int list" where
  "band_path pr S i = i # py_slice S (i * pr) ((i + 1) * pr)"

text \<open>
  Well-formed indexes. \<open>uniform n t\<close>: every branch of \<open>t\<close> has \<open>n\<close> dicts above its
  posting list. In a well-formed index the ranges are those of \<open>b\<close> and \<open>r\<close>, and below the
  label of band \<open>i\<close> every branch has the length of the slice of band \<open>i\<close>, which is the
  same for all signatures of length \<open>h\<close>.
\<close>

fun uniform :: "nat \<Rightarrow> 'k trie \<Rightarrow> bool" where
  "uniform 0 (Posting ks) = True"
| "uniform (Suc n) (Dict d) = list_all (\<lambda>e. uniform n (snd e)) d"
| "uniform 0 (Dict d) = False"
| "uniform (Suc n) (Posting ks) = False"

definition slice_len :: "nat \<Rightarrow> int \<Rightarrow> int \<Rightarrow> nat" where
  "slice_len n start stop = min (clamp_index n stop - clamp_index n start) (n - clamp_index n start)"

definition well_formed :: "'k lsh \<Rightarrow> bool" where
  "well_formed s \<longleftrightarrow>
     0 \<le> h s \<and>
     hashranges s = map (\<lambda>i. (i * r s, (i + 1) * r s)) [0..b s - 1] \<and>
     list_all (\<lambda>i. case map_of (root s) i of
                       None \<Rightarrow> True
                     | Some t \<Rightarrow> uniform (slice_len (nat (h s)) (i * r s) ((i + 1) * r s)) t)
              [0..b s - 1]"

text \<open>
  Two relations used to state what an insertion preserves. \<open>grows res res'\<close>: a posting
  list found before is found after, with at least the same keys. \<open>compat q p\<close>: two paths
  that start with the same band index have the same length.
\<close>

definition grows :: "'k list option \<Rightarrow> 'k list option \<Rightarrow> bool" where
  "grows res res' \<longleftrightarrow>
     (case res of None \<Rightarrow> True | Some ks \<Rightarrow> (\<exists>ks'. res' = Some ks' \<and> set ks \<subseteq> set ks'))"

definition compat :: "int list \<Rightarrow> int list \<Rightarrow> bool" where
  "compat q p \<longleftrightarrow> (hd q = hd p \<longrightarrow> length q = length p)"

text \<open>
  The index of the worked example (\<open>H = 4\<close>, \<open>b = 2\<close>, \<open>r = 2\<close>), fresh and after
  \<^verbatim>\<open>insert("A", [1,2,3,4])\<close>.
\<close>

definition example_index :: "string lsh" where
  "example_index = new_index 4 2 2"

definition example_index_A :: "string lsh" where
  "example_index_A =
     \<lparr> h = 4, b = 2, r = 2, hashranges = [(0, 2), (2, 4)],
       root = [(0, Dict [(1, Dict [(2, Posting [''A''])])]),
               (1, Dict [(3, Dict [(4, Posting [''A''])])])],
       keys = {''A''} \<rparr>"

text \<open>
  The index with \<open>H = 4\<close> and \<open>params = (1, -1)\<close> after \<^verbatim>\<open>insert("A", [1,2,3,4])\<close>, and
  after \<^verbatim>\<open>insert("A", [9,2,3,4])\<close>.
\<close>

definition back_index_1 :: "string lsh" where
  "back_index_1 =
     \<lparr> h = 4, b = 1, r = - 1, hashranges = [(0, - 1)],
       root = [(0, Dict [(1, Dict [(2, Dict [(3, Posting [''A''])])])])],
       keys = {''A''} \<rparr>"

definition back_index_9 :: "string lsh" where
  "back_index_9 =
     \<lparr> h = 4, b = 1, r = - 1, hashranges = [(0, - 1)],
       root = [(0, Dict [(9, Dict [(2, Dict [(3, Posting [''A''])])])])],
       keys = {''A''} \<rparr>"

text \<open>
  \<open>typed_at cur p\<close>: below the first label of the path \<open>p\<close>, if it is present in \<open>cur\<close>,
  every branch has the length of the rest of \<open>p\<close>.
\<close>

definition typed_at :: "'k pydict \<Rightarrow> int list \<Rightarrow> bool" where
  "typed_at cur p \<longleftrightarrow>
     (case map_of cur (hd p) of None \<Rightarrow> True | Some t \<Rightarrow> uniform (length p - 1) t)"

section \<open>The batch signature builder (bulk.py)\<close>

text \<open>
  Modelled from the spec: the class \<open>MinHash\<close> of \<^verbatim>\<open>datasketch.minhash\<close>, which is not
  part of these sources. A signature object holds its permutations, hash values,
  permutation count, seed and hash function, and the constructor called with these five
  values stores them. Its method \<^verbatim>\<open>_compute_hashvalues\<close> is the parameter
  \<open>compute_hashvalues\<close> below, and the object that \<^verbatim>\<open>MinHash()\<close> builds is the parameter
  \<open>default_minhash\<close>.
\<close>

record ('p, 'f) minhash =
  permutations :: 'p
  hashvalues :: "int list"
  num_perm :: int
  seed :: int
  hashfunc :: 'f

definition compute_minhash ::
  "('i \<Rightarrow> 'p \<Rightarrow> int list \<Rightarrow> int list) \<Rightarrow> 'i \<Rightarrow> ('p, 'f) minhash \<Rightarrow> ('p, 'f) minhash" where
  "compute_minhash compute_hashvalues item m =
     \<lparr> permutations = permutations m,
       hashvalues = compute_hashvalues item (permutations m) (hashvalues m),
       num_perm = num_perm m,
       seed = seed m,
       hashfunc = hashfunc m \<rparr>"

text \<open>
  The argument \<open>b\<close> of the two batch functions is any Python object: one that is an
  instance of \<open>Iterable\<close>, with the items it yields, or one that is not.
\<close>

datatype 'i pyobj = Iterable "'i list" | NotIterable

text \<open>
  \<open>compute_minhashes_generator\<close> is a generator function: the call runs nothing of its
  body and returns a generator object, which holds the arguments (\<open>Created\<close>). The body
  runs when the generator is advanced: \<open>gen_next\<close> is \<^verbatim>\<open>next(g)\<close>, which runs the body up
  to the next \<^verbatim>\<open>yield\<close> and returns the value yielded, or \<open>None\<close> at the end of the body
  (\<open>StopIteration\<close>). \<open>Suspended\<close> is the generator stopped at a \<^verbatim>\<open>yield\<close> of the loop,
  with the items that remain; a generator that has raised or ended is \<open>Exhausted\<close>.
\<close>

datatype ('i, 'p, 'f) generator =
    Created "'i pyobj" "('p, 'f) minhash option"
  | Suspended "'i list" "('p, 'f) minhash"
  | Exhausted

definition compute_minhashes_generator ::
  "'i pyobj \<Rightarrow> ('p, 'f) minhash option \<Rightarrow> pyerror + ('i, 'p, 'f) generator" where
  "compute_minhashes_generator items m = Inr (Created items m)"

definition resume ::
  "('i \<Rightarrow> 'p \<Rightarrow> int list \<Rightarrow> int list) \<Rightarrow> 'i list \<Rightarrow> ('p, 'f) minhash \<Rightarrow>
   (pyerror + ('p, 'f) minhash option) \<times> ('i, 'p, 'f) generator" where
  "resume compute_hashvalues items m =
     (case items of
        [] \<Rightarrow> (Inr None, Exhausted)
      | item # rest \<Rightarrow> (Inr (Some (compute_minhash compute_hashvalues item m)), Suspended rest m))"

fun gen_next ::
  "('i \<Rightarrow> 'p \<Rightarrow> int list \<Rightarrow> int list) \<Rightarrow> ('p, 'f) minhash \<Rightarrow> ('i, 'p, 'f) generator \<Rightarrow>
   (pyerror + ('p, 'f) minhash option) \<times> ('i, 'p, 'f) generator" where
  "gen_next compute_hashvalues default_minhash (Created items m) =
     (let m' = (case m of None \<Rightarrow> default_minhash | Some m0 \<Rightarrow> m0)
      in case items of
           NotIterable \<Rightarrow> (Inl (AssertionError (TypeError NotIterableGiven)), Exhausted)
         | Iterable xs \<Rightarrow> resume compute_hashvalues xs m')"
| "gen_next compute_hashvalues default_minhash (Suspended xs m) = resume compute_hashvalues xs m"
| "gen_next compute_hashvalues default_minhash Exhausted = (Inr None, Exhausted)"

text \<open>\<^verbatim>\<open>list(g)\<close>: advances the generator until it ends, or raises.\<close>

fun remaining :: "('i, 'p, 'f) generator \<Rightarrow> nat" where
  "remaining (Created (Iterable xs) m) = Suc (length xs)"
| "remaining (Created NotIterable m) = 0"
| "remaining (Suspended xs m) = length xs"
| "remaining Exhausted = 0"

function py_list ::
  "('i \<Rightarrow> 'p \<Rightarrow> int list \<Rightarrow> int list) \<Rightarrow> ('p, 'f) minhash \<Rightarrow> ('i, 'p, 'f) generator \<Rightarrow>
   pyerror + ('p, 'f) minhash list" where
  "py_list compute_hashvalues default_minhash g =
     (case gen_next compute_hashvalues default_minhash g of
        (Inl e, g') \<Rightarrow> Inl e
      | (Inr None, g') \<Rightarrow> Inr []
      | (Inr (Some x), g') \<Rightarrow>
          (case py_list compute_hashvalues default_minhash g' of
             Inl e \<Rightarrow> Inl e
           | Inr xs \<Rightarrow> Inr (x # xs)))"
  by pat_completeness auto
termination
  apply (relation "measure (\<lambda>(c, d, g). remaining g)")
   apply simp
  subgoal for c d g x y g' z
    apply (cases g rule: remaining.cases)
    apply (auto simp: resume_def Let_def split: list.splits)
    done
  done

definition compute_minhashes ::
  "('i \<Rightarrow> 'p \<Rightarrow> int list \<Rightarrow> int list) \<Rightarrow> ('p, 'f) minhash \<Rightarrow>
   'i pyobj \<Rightarrow> ('p, 'f) minhash option \<Rightarrow> pyerror + ('p, 'f) minhash list" where
  "compute_minhashes compute_hashvalues default_minhash items m =
     (case compute_minhashes_generator items m of
        Inl e \<Rightarrow> Inl e
      | Inr g \<Rightarrow> py_list compute_hashvalues default_minhash g)"


section \<open>Properties of the index\<close>


subsection \<open>query_nodes equations\<close>

lemma query_nodes_Nil:
  "query_nodes [] leaf cur =
     (case map_of cur leaf of None \<Rightarrow> Inr None | Some (Posting ks) \<Rightarrow> Inr (Some ks)
      | Some (Dict d) \<Rightarrow> Inl IllTyped)"
  by (simp add: query_nodes_def)

lemma query_nodes_Cons:
  "query_nodes (n # ns) leaf cur =
     (case map_of cur n of None \<Rightarrow> Inr None | Some (Dict d) \<Rightarrow> query_nodes ns leaf d
      | Some (Posting ks) \<Rightarrow> Inl IllTyped)"
  by (simp add: query_nodes_def split: option.splits trie.splits)

lemma query_nodes_empty: "query_nodes ns leaf [] = Inr None"
  by (cases ns) (simp_all add: query_nodes_Nil query_nodes_Cons)

lemma insert_nodes_finds:
  "insert_nodes ns leaf key cur = Inr cur' \<Longrightarrow>
   \<exists>ks. query_nodes ns leaf cur' = Inr (Some ks) \<and> key \<in> set ks"
proof (induction ns arbitrary: cur cur')
  case Nil
  then show ?case
    by (auto simp: query_nodes_Nil update_conv' split: option.splits trie.splits)
next
  case (Cons n ns)
  then show ?case
    by (auto simp: query_nodes_Cons update_conv' split: option.splits trie.splits sum.splits)
qed

lemma insert_nodes_keeps:
  "insert_nodes ns' leaf' key cur = Inr cur' \<Longrightarrow> length ns = length ns' \<Longrightarrow>
   query_nodes ns leaf cur = Inr res \<Longrightarrow>
   \<exists>res'. query_nodes ns leaf cur' = Inr res' \<and> grows res res'"
proof (induction ns' arbitrary: ns cur cur' res)
  case Nil
  then show ?case
    by (auto simp: query_nodes_Nil update_conv' grows_def split: option.splits trie.splits if_splits)
next
  case (Cons n' ns')
  then obtain n nss where ns: "ns = n # nss" and len: "length nss = length ns'"
    by (cases ns) auto
  show ?case
  proof (cases "n = n'")
    case False
    with Cons.prems ns show ?thesis
      by (auto simp: query_nodes_Cons update_conv' grows_def split: option.splits trie.splits sum.splits if_splits)
  next
    case True
    show ?thesis
    proof (cases "map_of cur n'")
      case None
      with Cons.prems obtain d' where d': "insert_nodes ns' leaf' key [] = Inr d'"
        and cur': "cur' = AList.update n' (Dict d') cur"
        by (auto split: sum.splits)
      from Cons.IH[OF d' len query_nodes_empty] obtain r' where "query_nodes nss leaf d' = Inr r'"
        by blast
      with None Cons.prems ns True cur' show ?thesis
        by (auto simp: query_nodes_Cons update_conv' grows_def)
    next
      case (Some t)
      with Cons.prems obtain d d' where t: "t = Dict d" and d': "insert_nodes ns' leaf' key d = Inr d'"
        and cur': "cur' = AList.update n' (Dict d') cur"
        by (auto split: sum.splits trie.splits)
      from Cons.prems(3) ns True Some t have q: "query_nodes nss leaf d = Inr res"
        by (simp add: query_nodes_Cons)
      from Cons.IH[OF d' len q] cur' ns True show ?thesis
        by (auto simp: query_nodes_Cons update_conv')
    qed
  qed
qed

lemma grows_refl: "grows res res"
  by (simp add: grows_def split: option.splits)

lemma grows_trans: "grows r1 r2 \<Longrightarrow> grows r2 r3 \<Longrightarrow> grows r1 r3"
  by (auto simp: grows_def split: option.splits)

subsection \<open>One path\<close>

lemma query_path_hd:
  assumes "map_of cur' (hd p) = map_of cur (hd p)"
  shows "query_path p cur' = query_path p cur"
proof (cases p)
  case Nil
  then show ?thesis by (simp add: query_path_def)
next
  case (Cons l ls)
  show ?thesis
  proof (cases ls)
    case Nil
    with Cons assms show ?thesis
      by (simp add: query_path_def query_nodes_Nil)
  next
    case (Cons l' ls')
    with \<open>p = l # ls\<close> assms show ?thesis
      by (simp add: query_path_def query_nodes_Cons)
  qed
qed

lemma insert_nodes_other:
  assumes "insert_nodes ns leaf key cur = Inr cur'"
    and "l \<noteq> hd (ns @ [leaf])"
  shows "map_of cur' l = map_of cur l"
  using assms
  by (cases ns) (auto simp: update_conv' split: option.splits trie.splits sum.splits)

lemma insert_path_other:
  assumes "insert_path p key cur = Inr cur'" and "l \<noteq> hd p"
  shows "map_of cur' l = map_of cur l"
proof -
  from assms(1) have ne: "p \<noteq> []" and ins: "insert_nodes (butlast p) (last p) key cur = Inr cur'"
    by (auto simp: insert_path_def split: if_splits)
  from ne assms(2) have "l \<noteq> hd (butlast p @ [last p])" by simp
  from insert_nodes_other[OF ins this] show ?thesis .
qed

lemma insert_path_finds:
  assumes "insert_path p key cur = Inr cur'"
  shows "\<exists>ks. query_path p cur' = Inr (Some ks) \<and> key \<in> set ks"
  using assms insert_nodes_finds[of "butlast p" "last p" key cur cur']
  by (auto simp: insert_path_def query_path_def split: if_splits)

lemma insert_path_keeps:
  assumes ins: "insert_path p key cur = Inr cur'"
    and q: "query_path q cur = Inr res"
    and c: "compat q p"
  shows "\<exists>res'. query_path q cur' = Inr res' \<and> grows res res'"
proof (cases "hd q = hd p")
  case False
  from insert_path_other[OF ins False] have "query_path q cur' = query_path q cur"
    by (rule query_path_hd)
  with q show ?thesis by (auto intro: grows_refl)
next
  case True
  with c have len: "length q = length p" by (simp add: compat_def)
  from ins have ne: "p \<noteq> []" and ins': "insert_nodes (butlast p) (last p) key cur = Inr cur'"
    by (auto simp: insert_path_def split: if_splits)
  from len ne have qne: "q \<noteq> []" by auto
  with q have q': "query_nodes (butlast q) (last q) cur = Inr res"
    by (simp add: query_path_def)
  from len have "length (butlast q) = length (butlast p)" by simp
  from insert_nodes_keeps[OF ins' this q'] qne show ?thesis
    by (simp add: query_path_def)
qed

subsection \<open>The loop over the paths\<close>

lemma insert_paths_keeps:
  "insert_paths ps key cur = (None, cur') \<Longrightarrow> \<forall>p\<in>set ps. compat q p \<Longrightarrow>
   query_path q cur = Inr res \<Longrightarrow>
   \<exists>res'. query_path q cur' = Inr res' \<and> grows res res'"
proof (induction ps arbitrary: cur res)
  case Nil
  then show ?case by (auto intro: grows_refl)
next
  case (Cons p ps)
  from Cons.prems(1) obtain cur1 where p: "insert_path p key cur = Inr cur1"
    and ps: "insert_paths ps key cur1 = (None, cur')"
    by (auto split: sum.splits)
  from Cons.prems(2) have "compat q p" by simp
  from insert_path_keeps[OF p Cons.prems(3) this] obtain r1
    where r1: "query_path q cur1 = Inr r1" and g1: "grows res r1" by blast
  from Cons.prems(2) have "\<forall>p\<in>set ps. compat q p" by simp
  from Cons.IH[OF ps this r1] obtain res' where "query_path q cur' = Inr res'" "grows r1 res'"
    by blast
  with g1 show ?case by (blast intro: grows_trans)
qed

lemma insert_paths_finds:
  "insert_paths ps key cur = (None, cur') \<Longrightarrow> \<forall>p\<in>set ps. \<forall>q\<in>set ps. compat q p \<Longrightarrow>
   q \<in> set ps \<Longrightarrow> \<exists>ks. query_path q cur' = Inr (Some ks) \<and> key \<in> set ks"
proof (induction ps arbitrary: cur)
  case Nil
  then show ?case by simp
next
  case (Cons p ps)
  from Cons.prems(1) obtain cur1 where p: "insert_path p key cur = Inr cur1"
    and ps: "insert_paths ps key cur1 = (None, cur')"
    by (auto split: sum.splits)
  show ?case
  proof (cases "q = p")
    case True
    from insert_path_finds[OF p] obtain ks where ks: "query_path p cur1 = Inr (Some ks)" "key \<in> set ks"
      by blast
    from Cons.prems(2) have "\<forall>p'\<in>set ps. compat p p'" by simp
    from insert_paths_keeps[OF ps this ks(1)] ks(2) True show ?thesis
      by (auto simp: grows_def)
  next
    case False
    with Cons.prems(3) have "q \<in> set ps" by simp
    moreover from Cons.prems(2) have "\<forall>p\<in>set ps. \<forall>q\<in>set ps. compat q p" by simp
    ultimately show ?thesis using Cons.IH[OF ps] by blast
  qed
qed

lemma set_set_update: "set (set_update c ks) = set c \<union> set ks"
  by (auto simp: set_update_def List.union_def[symmetric])

lemma distinct_set_update: "distinct (set_update c ks) = distinct c"
  by (simp add: set_update_def List.union_def[symmetric])

lemma query_paths_each:
  "query_paths qs cur c = Inr res \<Longrightarrow> q \<in> set qs \<Longrightarrow> \<exists>r. query_path q cur = Inr r"
  by (induction qs arbitrary: c) (auto split: sum.splits option.splits)

lemma query_paths_total:
  "\<forall>q\<in>set qs. \<exists>r. query_path q cur = Inr r \<Longrightarrow> \<exists>res. query_paths qs cur c = Inr res"
  by (induction qs arbitrary: c) (auto split: sum.splits option.splits)

lemma query_paths_set:
  "query_paths qs cur c = Inr res \<Longrightarrow>
   set res = set c \<union> {k. \<exists>q\<in>set qs. \<exists>ks. query_path q cur = Inr (Some ks) \<and> k \<in> set ks}"
proof (induction qs arbitrary: c)
  case Nil
  then show ?case by simp
next
  case (Cons q qs)
  then show ?case
    by (auto simp: set_set_update split: sum.splits option.splits)
qed

lemma query_paths_distinct:
  "query_paths qs cur c = Inr res \<Longrightarrow> distinct c \<Longrightarrow> distinct res"
  by (induction qs arbitrary: c) (auto simp: distinct_set_update split: sum.splits option.splits)

subsection \<open>The paths of a signature\<close>

lemma length_py_slice: "length (py_slice xs start stop) = slice_len (length xs) start stop"
  by (simp add: py_slice_def slice_len_def Let_def)

lemma band_paths_elem:
  "p \<in> set (band_paths ranges S) \<longleftrightarrow>
     (\<exists>i<length ranges. p = int i # py_slice S (fst (ranges ! i)) (snd (ranges ! i)))"
  by (auto simp: band_paths_def in_set_enumerate_eq image_iff split: prod.splits)

lemma band_paths_compat:
  assumes "length S = length S'" "q \<in> set (band_paths ranges S)" "p \<in> set (band_paths ranges S')"
  shows "compat q p"
  using assms by (auto simp: band_paths_elem compat_def length_py_slice)

lemma band_paths_Nil: "band_paths ranges S = [] \<longleftrightarrow> ranges = []"
  by (simp add: band_paths_def enumerate_eq_zip)

subsection \<open>Calls\<close>

lemma insert_lsh_okD:
  assumes "insert_lsh s key S chk = (Inr (), s')"
  shows "int (length S) = h s"
    and "\<exists>root'. insert_paths (band_paths (hashranges s) S) key (root s) = (None, root')
           \<and> s' = s\<lparr>root := root', keys := insert key (keys s)\<rparr>"
  using assms by (auto simp: insert_lsh_def split: if_splits prod.splits option.splits)

lemma query_okD:
  assumes "query s S = (Inr res, s1)"
  shows "int (length S) = h s" and "query_paths (band_paths (hashranges s) S) (root s) [] = Inr res"
  using assms by (auto simp: query_def split: if_splits)

lemma insert_lsh_keeps:
  assumes ins: "insert_lsh s key S' chk = (Inr (), s')" and qu: "query s S = (Inr res, s1)"
  shows "\<exists>res'. query s' S = (Inr res', s') \<and> set res \<subseteq> set res'"
proof -
  let ?ps = "band_paths (hashranges s) S'"
  let ?qs = "band_paths (hashranges s) S"
  from insert_lsh_okD[OF ins] obtain root' where len': "int (length S') = h s"
    and ips: "insert_paths ?ps key (root s) = (None, root')"
    and s': "s' = s\<lparr>root := root', keys := insert key (keys s)\<rparr>"
    by blast
  from query_okD[OF qu] have len: "int (length S) = h s"
    and res: "query_paths ?qs (root s) [] = Inr res" by auto
  from len len' have ll: "length S = length S'" by simp
  have keep: "\<exists>r'. query_path q root' = Inr r' \<and> grows r r'"
    if "q \<in> set ?qs" "query_path q (root s) = Inr r" for q r
  proof -
    from that(1) ll have "\<forall>p\<in>set ?ps. compat q p" by (blast intro: band_paths_compat)
    from insert_paths_keeps[OF ips this that(2)] show ?thesis .
  qed
  have "\<forall>q\<in>set ?qs. \<exists>r. query_path q root' = Inr r"
    using query_paths_each[OF res] keep by blast
  from query_paths_total[OF this] obtain res' where res': "query_paths ?qs root' [] = Inr res'"
    by blast
  have "set res \<subseteq> set res'"
    unfolding query_paths_set[OF res] query_paths_set[OF res']
    using keep by (fastforce simp: grows_def)
  with res' len s' show ?thesis by (simp add: query_def)
qed

lemma insert_lsh_keys:
  "insert_lsh s key S chk = (Inr (), s') \<Longrightarrow> keys s' = insert key (keys s)"
  by (auto dest: insert_lsh_okD)

lemma inserts_keeps:
  "inserts s calls = (Inr (), s') \<Longrightarrow> query s S = (Inr res, s) \<Longrightarrow>
   \<exists>res'. query s' S = (Inr res', s') \<and> set res \<subseteq> set res'"
proof (induction calls arbitrary: s res)
  case Nil
  then show ?case by auto
next
  case (Cons c calls)
  obtain key S' chk where c: "c = (key, S', chk)" by (cases c) auto
  from Cons.prems(1) c obtain s1 where ins: "insert_lsh s key S' chk = (Inr (), s1)"
    and rest: "inserts s1 calls = (Inr (), s')"
    by (auto split: prod.splits sum.splits)
  from insert_lsh_keeps[OF ins Cons.prems(2)] obtain res1
    where q1: "query s1 S = (Inr res1, s1)" and sub: "set res \<subseteq> set res1" by blast
  from Cons.IH[OF rest q1] sub show ?case by blast
qed

lemma inserts_keys: "inserts s calls = (Inr (), s') \<Longrightarrow> keys s \<subseteq> keys s'"
proof (induction calls arbitrary: s)
  case Nil
  then show ?case by auto
next
  case (Cons c calls)
  obtain key S' chk where c: "c = (key, S', chk)" by (cases c) auto
  from Cons.prems c obtain s1 where ins: "insert_lsh s key S' chk = (Inr (), s1)"
    and rest: "inserts s1 calls = (Inr (), s')"
    by (auto split: prod.splits sum.splits)
  from insert_lsh_keys[OF ins] Cons.IH[OF rest] show ?case by auto
qed

lemma new_index_ranges_Nil: "hashranges (new_index n_perm pb pr) = [] \<longleftrightarrow> pb \<le> 0"
  by (auto simp: new_index_def)

lemma init_params:
  assumes "0 \<le> threshold" "threshold \<le> 1" "2 \<le> n_perm"
    and "\<forall>w\<in>set weights. 0 \<le> w \<and> w \<le> 1" and "py_sum fadd weights = 1"
  shows "init fadd opt threshold n_perm weights (Some (pb, pr)) =
           (if pb * pr > n_perm
            then Inl (ValueError (ParamsProduct pb pr (pb * pr) n_perm))
            else Inr (new_index n_perm pb pr))"
  using assms by (auto simp: init_def list_ex_iff)

lemma upto_as_upt: "[0..pb - 1] = map int [0..<nat pb]"
proof (cases "0 \<le> pb")
  case True
  then obtain n where "pb = int n" using nonneg_int_cases by blast
  moreover have "[0..int n - 1] = map int [0..<n]"
    by (induction n) (simp_all add: upto_rec2)
  ultimately show ?thesis by simp
next
  case False
  then show ?thesis by simp
qed

lemma set_alist_update: "set (AList.update k v al) \<subseteq> insert (k, v) (set al)"
  by (induction al) auto

lemma uniform_update:
  assumes "list_all (\<lambda>e. uniform n (snd e)) cur" and "uniform n t"
  shows "list_all (\<lambda>e. uniform n (snd e)) (AList.update l t cur)"
  using assms set_alist_update[of l t cur] by (auto simp: list_all_iff)

lemma uniform_lookup:
  assumes "list_all (\<lambda>e. uniform n (snd e)) cur" and "map_of cur l = Some t"
  shows "uniform n t"
proof -
  from assms(2) have "(l, t) \<in> set cur" by (rule map_of_SomeD)
  with assms(1) show ?thesis by (auto simp: list_all_iff)
qed

lemma uniform_0D: "uniform 0 t \<Longrightarrow> \<exists>ks. t = Posting ks"
  by (cases t) auto

lemma uniform_SucD: "uniform (Suc n) t \<Longrightarrow> \<exists>d. t = Dict d \<and> list_all (\<lambda>e. uniform n (snd e)) d"
  by (cases t) auto

lemma insert_nodes_uniform:
  "list_all (\<lambda>e. uniform (length ns) (snd e)) cur \<Longrightarrow>
   \<exists>cur'. insert_nodes ns leaf key cur = Inr cur'
     \<and> list_all (\<lambda>e. uniform (length ns) (snd e)) cur'"
proof (induction ns arbitrary: cur)
  case Nil
  show ?case
  proof (cases "map_of cur leaf")
    case None
    with Nil show ?thesis by (simp add: uniform_update)
  next
    case (Some t)
    from uniform_lookup[OF _ Some] Nil obtain ks where "t = Posting ks"
      using uniform_0D by fastforce
    with Some Nil show ?thesis by (simp add: uniform_update)
  qed
next
  case (Cons n ns)
  have step: "\<exists>cur'. (case insert_nodes ns leaf key d of Inl e \<Rightarrow> Inl e
                 | Inr d' \<Rightarrow> Inr (AList.update n (Dict d') cur)) = Inr cur'
     \<and> list_all (\<lambda>e. uniform (Suc (length ns)) (snd e)) cur'"
    if "list_all (\<lambda>e. uniform (length ns) (snd e)) d" for d
  proof -
    from Cons.IH[OF that] obtain d' where d': "insert_nodes ns leaf key d = Inr d'"
      and u: "list_all (\<lambda>e. uniform (length ns) (snd e)) d'" by blast
    from u have "uniform (Suc (length ns)) (Dict d')" by simp
    with Cons.prems d' show ?thesis by (simp add: uniform_update)
  qed
  show ?case
  proof (cases "map_of cur n")
    case None
    with step[of "[]"] show ?thesis by simp
  next
    case (Some t)
    from uniform_lookup[OF _ Some] Cons.prems have "uniform (Suc (length ns)) t" by fastforce
    then obtain d where t: "t = Dict d" and d: "list_all (\<lambda>e. uniform (length ns) (snd e)) d"
      using uniform_SucD by blast
    with Some step[OF d] show ?thesis by simp
  qed
qed

lemma query_nodes_uniform:
  "list_all (\<lambda>e. uniform (length ns) (snd e)) cur \<Longrightarrow> \<exists>res. query_nodes ns leaf cur = Inr res"
proof (induction ns arbitrary: cur)
  case Nil
  show ?case
  proof (cases "map_of cur leaf")
    case None
    then show ?thesis by (simp add: query_nodes_Nil)
  next
    case (Some t)
    from uniform_lookup[OF _ Some] Nil obtain ks where "t = Posting ks"
      using uniform_0D by fastforce
    with Some show ?thesis by (simp add: query_nodes_Nil)
  qed
next
  case (Cons n ns)
  show ?case
  proof (cases "map_of cur n")
    case None
    then show ?thesis by (simp add: query_nodes_Cons)
  next
    case (Some t)
    from uniform_lookup[OF _ Some] Cons.prems have "uniform (Suc (length ns)) t" by fastforce
    then obtain d where t: "t = Dict d" and d: "list_all (\<lambda>e. uniform (length ns) (snd e)) d"
      using uniform_SucD by blast
    with Some Cons.IH[OF d] show ?thesis by (simp add: query_nodes_Cons)
  qed
qed

lemma query_nodes_posting_at:
  "query_nodes ns leaf cur = Inr res \<Longrightarrow> res = posting_at (Dict cur) (ns @ [leaf])"
  by (induction ns arbitrary: cur)
     (auto simp: query_nodes_Nil query_nodes_Cons split: option.splits trie.splits)

lemma query_path_posting_at:
  "query_path p cur = Inr res \<Longrightarrow> res = posting_at (Dict cur) p"
  using query_nodes_posting_at[of "butlast p" "last p" cur res]
  by (auto simp: query_path_def split: if_splits)

lemma insert_path_typed:
  assumes ne: "p \<noteq> []" and ty: "typed_at cur p"
  shows "\<exists>cur'. insert_path p key cur = Inr cur' \<and> typed_at cur' p"
proof (cases p)
  case Nil
  with ne show ?thesis by simp
next
  case (Cons l ls)
  show ?thesis
  proof (cases ls)
    case Nil
    show ?thesis
    proof (cases "map_of cur l")
      case None
      with Cons Nil show ?thesis
        by (simp add: insert_path_def typed_at_def update_conv')
    next
      case (Some t)
      with ty Cons Nil have "uniform 0 t" by (simp add: typed_at_def)
      then obtain ks where "t = Posting ks" using uniform_0D by blast
      with Some Cons Nil show ?thesis
        by (simp add: insert_path_def typed_at_def update_conv')
    qed
  next
    case (Cons l' ls')
    let ?ns = "butlast (l' # ls')"
    let ?leaf = "last (l' # ls')"
    have len: "length ?ns = length ls'" by simp
    have p: "insert_path p key cur = insert_nodes (l # ?ns) ?leaf key cur"
      using \<open>p = l # ls\<close> Cons by (simp add: insert_path_def)
    have hd: "hd p = l" "length p - 1 = Suc (length ?ns)"
      using \<open>p = l # ls\<close> Cons by simp_all
    have step: "\<exists>cur'. (case insert_nodes ?ns ?leaf key d of Inl e \<Rightarrow> Inl e
                   | Inr d' \<Rightarrow> Inr (AList.update l (Dict d') cur)) = Inr cur'
                 \<and> typed_at cur' p"
      if "list_all (\<lambda>e. uniform (length ?ns) (snd e)) d" for d
    proof -
      from insert_nodes_uniform[OF that] obtain d'
        where d': "insert_nodes ?ns ?leaf key d = Inr d'"
          and u: "list_all (\<lambda>e. uniform (length ?ns) (snd e)) d'" by blast
      then show ?thesis
        unfolding typed_at_def hd by (simp add: update_conv')
    qed
    show ?thesis
    proof (cases "map_of cur l")
      case None
      with step[of "[]"] p show ?thesis by simp
    next
      case (Some t)
      with ty hd have "uniform (Suc (length ?ns)) t" by (simp add: typed_at_def)
      then obtain d where "t = Dict d" and d: "list_all (\<lambda>e. uniform (length ?ns) (snd e)) d"
        using uniform_SucD by blast
      with Some step[OF d] p show ?thesis by simp
    qed
  qed
qed

lemma query_path_typed:
  assumes ne: "p \<noteq> []" and ty: "typed_at cur p"
  shows "\<exists>res. query_path p cur = Inr res"
proof (cases p)
  case Nil
  with ne show ?thesis by simp
next
  case (Cons l ls)
  show ?thesis
  proof (cases ls)
    case Nil
    show ?thesis
    proof (cases "map_of cur l")
      case None
      with Cons Nil show ?thesis
        by (simp add: query_path_def query_nodes_Nil)
    next
      case (Some t)
      with ty Cons Nil have "uniform 0 t" by (simp add: typed_at_def)
      then obtain ks where "t = Posting ks" using uniform_0D by blast
      with Some Cons Nil show ?thesis
        by (simp add: query_path_def query_nodes_Nil)
    qed
  next
    case (Cons l' ls')
    let ?ns = "butlast (l' # ls')"
    let ?leaf = "last (l' # ls')"
    have p: "query_path p cur = query_nodes (l # ?ns) ?leaf cur"
      using \<open>p = l # ls\<close> Cons by (simp add: query_path_def)
    have hd: "hd p = l" "length p - 1 = Suc (length ?ns)"
      using \<open>p = l # ls\<close> Cons by simp_all
    show ?thesis
    proof (cases "map_of cur l")
      case None
      with p show ?thesis by (simp add: query_nodes_Cons)
    next
      case (Some t)
      with ty hd have "uniform (Suc (length ?ns)) t" by (simp add: typed_at_def)
      then obtain d where "t = Dict d" and d: "list_all (\<lambda>e. uniform (length ?ns) (snd e)) d"
        using uniform_SucD by blast
      with Some query_nodes_uniform[OF d, of ?leaf] p show ?thesis
        by (simp add: query_nodes_Cons)
    qed
  qed
qed

lemma typed_at_insert_path:
  assumes ins: "insert_path p key cur = Inr cur'" and p: "typed_at cur' p"
    and q: "typed_at cur q" and c: "compat q p"
  shows "typed_at cur' q"
proof (cases "hd q = hd p")
  case True
  with c have "length q = length p" by (simp add: compat_def)
  with True p show ?thesis by (simp add: typed_at_def split: option.splits)
next
  case False
  from insert_path_other[OF ins False] q show ?thesis by (simp add: typed_at_def)
qed

lemma insert_paths_typed:
  "\<forall>p\<in>set ps. p \<noteq> [] \<and> p \<in> Q \<Longrightarrow> \<forall>p\<in>Q. \<forall>q\<in>Q. compat q p \<Longrightarrow>
   \<forall>q\<in>Q. typed_at cur q \<Longrightarrow>
   \<exists>cur'. insert_paths ps key cur = (None, cur') \<and> (\<forall>q\<in>Q. typed_at cur' q)"
proof (induction ps arbitrary: cur)
  case Nil
  then show ?case by simp
next
  case (Cons p ps)
  from Cons.prems have ne: "p \<noteq> []" and pQ: "p \<in> Q" by auto
  with Cons.prems(3) have "typed_at cur p" by blast
  from insert_path_typed[OF ne this] obtain cur1
    where p: "insert_path p key cur = Inr cur1" and ty: "typed_at cur1 p" by blast
  have "\<forall>q\<in>Q. typed_at cur1 q"
    using typed_at_insert_path[OF p ty] Cons.prems(2,3) pQ by blast
  moreover from Cons.prems(1) have "\<forall>p\<in>set ps. p \<noteq> [] \<and> p \<in> Q" by simp
  ultimately obtain cur' where "insert_paths ps key cur1 = (None, cur')" "\<forall>q\<in>Q. typed_at cur' q"
    using Cons.IH[OF _ Cons.prems(2)] by blast
  with p show ?case by simp
qed

subsection \<open>Well-formed indexes\<close>

lemma band_paths_ranges:
  "band_paths (map (\<lambda>i. (i * pr, (i + 1) * pr)) [0..pb - 1]) S = map (band_path pr S) [0..pb - 1]"
proof -
  have "zip [0..<n] (map f [0..<n]) = map (\<lambda>i. (i, f i)) [0..<n]" for n and f :: "nat \<Rightarrow> int \<times> int"
    by (simp add: zip_map2 zip_same_conv_map)
  then show ?thesis
    by (simp add: band_paths_def enumerate_eq_zip upto_as_upt band_path_def comp_def)
qed

lemma set_upto_less: "{0..pb - 1} = {0..<pb::int}"
  by auto

lemma wf_typed:
  assumes "well_formed s" and "int (length S) = h s" and "q \<in> set (band_paths (hashranges s) S)"
  shows "typed_at (root s) q"
proof -
  from assms(1) have hr: "hashranges s = map (\<lambda>i. (i * r s, (i + 1) * r s)) [0..b s - 1]"
    by (simp add: well_formed_def)
  with assms(3) obtain i where i: "i \<in> set [0..b s - 1]" and q: "q = band_path (r s) S i"
    by (auto simp: band_paths_ranges)
  from assms(2) have "nat (h s) = length S" by auto
  with assms(1) i show ?thesis
    unfolding q typed_at_def well_formed_def list_all_iff band_path_def
    by (auto simp: length_py_slice split: option.splits)
qed

lemma typed_wf:
  assumes "hashranges s = map (\<lambda>i. (i * r s, (i + 1) * r s)) [0..b s - 1]"
    and "int (length S) = h s"
    and "\<forall>q\<in>set (band_paths (hashranges s) S). typed_at (root s) q"
  shows "well_formed s"
proof -
  from assms(2) have n: "nat (h s) = length S" and "0 \<le> h s" by auto
  have "case map_of (root s) i of None \<Rightarrow> True
        | Some t \<Rightarrow> uniform (slice_len (nat (h s)) (i * r s) ((i + 1) * r s)) t"
    if "i \<in> set [0..b s - 1]" for i
  proof -
    from that assms(1) have "band_path (r s) S i \<in> set (band_paths (hashranges s) S)"
      by (simp add: band_paths_ranges)
    with assms(3) have "typed_at (root s) (band_path (r s) S i)" by blast
    then show ?thesis
      by (simp add: typed_at_def band_path_def length_py_slice n split: option.splits)
  qed
  with assms(1) \<open>0 \<le> h s\<close> show ?thesis
    by (simp add: well_formed_def list_all_iff)
qed

lemma band_paths_nonempty: "p \<in> set (band_paths ranges S) \<Longrightarrow> p \<noteq> []"
  by (auto simp: band_paths_elem)

lemma wf_new_index: "0 \<le> n_perm \<Longrightarrow> well_formed (new_index n_perm pb pr)"
  by (simp add: well_formed_def new_index_def list_all_iff)

lemma wf_insert:
  assumes wf: "well_formed s" and len: "int (length S) = h s" and dup: "\<not> (chk \<and> key \<in> keys s)"
  shows "\<exists>s'. insert_lsh s key S chk = (Inr (), s') \<and> well_formed s'"
proof -
  let ?ps = "band_paths (hashranges s) S"
  have 1: "\<forall>p\<in>set ?ps. p \<noteq> [] \<and> p \<in> set ?ps"
    by (simp add: band_paths_nonempty)
  have 2: "\<forall>p\<in>set ?ps. \<forall>q\<in>set ?ps. compat q p"
    by (blast intro: band_paths_compat)
  have 3: "\<forall>q\<in>set ?ps. typed_at (root s) q"
    using wf_typed[OF wf len] by blast
  from insert_paths_typed[OF 1 2 3] obtain root'
    where ips: "insert_paths ?ps key (root s) = (None, root')"
      and ty: "\<forall>q\<in>set ?ps. typed_at root' q" by blast
  let ?s' = "s\<lparr>root := root', keys := insert key (keys s)\<rparr>"
  from ips len dup have "insert_lsh s key S chk = (Inr (), ?s')"
    by (auto simp: insert_lsh_def)
  moreover have "well_formed ?s'"
  proof (rule typed_wf[where S = S])
    from wf show "hashranges ?s' = map (\<lambda>i. (i * r ?s', (i + 1) * r ?s')) [0..b ?s' - 1]"
      by (simp add: well_formed_def)
    from len show "int (length S) = h ?s'" by simp
    from ty show "\<forall>q\<in>set (band_paths (hashranges ?s') S). typed_at (root ?s') q" by simp
  qed
  ultimately show ?thesis by blast
qed

lemma wf_insert_any: "well_formed s \<Longrightarrow> well_formed (snd (insert_lsh s key S chk))"
proof (cases "int (length S) = h s \<and> \<not> (chk \<and> key \<in> keys s)")
  case True
  assume "well_formed s"
  with True wf_insert[of s S chk key] show ?thesis by auto
next
  case False
  assume "well_formed s"
  with False show ?thesis by (auto simp: insert_lsh_def)
qed

lemma wf_query:
  assumes wf: "well_formed s" and len: "int (length S) = h s"
  shows "\<exists>res. query s S = (Inr res, s)"
proof -
  let ?ps = "band_paths (hashranges s) S"
  have "\<forall>q\<in>set ?ps. \<exists>r. query_path q (root s) = Inr r"
    using wf_typed[OF wf len] query_path_typed band_paths_nonempty by blast
  from query_paths_total[OF this] len show ?thesis
    by (simp add: query_def)
qed

lemma py_slice_take:
  assumes "0 \<le> start" "0 \<le> stop" "stop \<le> int m"
  shows "py_slice (take m xs) start stop = py_slice xs start stop"
proof -
  from assms have "nat stop \<le> m" by simp
  then show ?thesis using assms(1,2)
    by (auto simp: py_slice_def clamp_index_def Let_def drop_take min_def intro!: nth_equalityI)
qed

lemma band_paths_agree:
  assumes r0: "0 \<le> pr"
    and agree: "take (nat (pb * pr)) S1 = take (nat (pb * pr)) S2"
  shows "band_paths (map (\<lambda>i. (i * pr, (i + 1) * pr)) [0..pb - 1]) S1
       = band_paths (map (\<lambda>i. (i * pr, (i + 1) * pr)) [0..pb - 1]) S2"
proof -
  have "band_path pr S1 i = band_path pr S2 i" if "i \<in> set [0..pb - 1]" for i
  proof -
    from that have i: "0 \<le> i" "i + 1 \<le> pb" by auto
    with r0 have a: "0 \<le> i * pr" "0 \<le> (i + 1) * pr" by simp_all
    from i r0 have "(i + 1) * pr \<le> pb * pr" by (intro mult_right_mono) auto
    with a have c: "(i + 1) * pr \<le> int (nat (pb * pr))" by simp
    have "py_slice S1 (i * pr) ((i + 1) * pr) = py_slice (take (nat (pb * pr)) S1) (i * pr) ((i + 1) * pr)"
      by (rule py_slice_take[OF a c, symmetric])
    also have "\<dots> = py_slice S2 (i * pr) ((i + 1) * pr)"
      unfolding agree by (rule py_slice_take[OF a c])
    finally show ?thesis by (simp add: band_path_def)
  qed
  then show ?thesis by (simp add: band_paths_ranges)
qed

lemma init_well_formed:
  assumes "init fadd opt threshold n_perm weights params = Inr s"
  shows "well_formed s"
proof -
  from assms have "2 \<le> n_perm"
    by (auto simp: init_def split: if_splits)
  moreover from assms obtain pb pr where "s = new_index n_perm pb pr"
    by (auto simp: init_def split: if_splits option.splits prod.splits list.splits)
  ultimately show ?thesis by (simp add: wf_new_index)
qed

lemma wf_inserts: "well_formed s \<Longrightarrow> well_formed (snd (inserts s calls))"
proof (induction calls arbitrary: s)
  case Nil
  then show ?case by simp
next
  case (Cons c calls)
  obtain key S chk where c: "c = (key, S, chk)" by (cases c) auto
  from Cons.prems have "well_formed (snd (insert_lsh s key S chk))" by (rule wf_insert_any)
  with Cons.IH c show ?case
    by (cases "insert_lsh s key S chk") (auto split: sum.splits)
qed

subsection \<open>The batch builder\<close>

lemma py_list_Suspended:
  "py_list compute_hashvalues default_minhash (Suspended xs m)
     = Inr (map (\<lambda>x. compute_minhash compute_hashvalues x m) xs)"
  by (induction xs) (simp_all add: resume_def)

lemma py_list_Created:
  "py_list compute_hashvalues default_minhash (Created (Iterable xs) m)
     = py_list compute_hashvalues default_minhash
         (Suspended xs (case m of None \<Rightarrow> default_minhash | Some m0 \<Rightarrow> m0))"
  by (simp add: Let_def del: py_list.simps
        add: py_list.simps[of _ _ "Created (Iterable xs) m"]
             py_list.simps[of _ _ "Suspended xs (case m of None \<Rightarrow> default_minhash | Some m0 \<Rightarrow> m0)"])

lemma compute_minhashes_iterable:
  "compute_minhashes compute_hashvalues default_minhash (Iterable xs) m
     = Inr (map (\<lambda>x. compute_minhash compute_hashvalues x
                        (case m of None \<Rightarrow> default_minhash | Some m0 \<Rightarrow> m0)) xs)"
  by (simp add: compute_minhashes_def compute_minhashes_generator_def py_list_Created
        py_list_Suspended del: py_list.simps)

lemma compute_minhashes_not_iterable:
  "compute_minhashes compute_hashvalues default_minhash NotIterable m
     = Inl (AssertionError (TypeError NotIterableGiven))"
  by (simp add: compute_minhashes_def compute_minhashes_generator_def)

lemma calls_agree:
  assumes hr: "hashranges t = map (\<lambda>i. (i * pr, (i + 1) * pr)) [0..pb - 1]"
    and r0: "0 \<le> pr" and len: "length S1 = length S2"
    and agree: "take (nat (pb * pr)) S1 = take (nat (pb * pr)) S2"
  shows "insert_lsh t key S1 chk = insert_lsh t key S2 chk \<and> query t S1 = query t S2"
proof -
  have "band_paths (hashranges t) S1 = band_paths (hashranges t) S2"
    unfolding hr by (rule band_paths_agree[OF r0 agree])
  with len show ?thesis by (simp add: insert_lsh_def query_def)
qed

lemmas eval_defs = insert_lsh_def query_def new_index_def band_paths_def py_slice_def
  clamp_index_def insert_path_def query_path_def query_nodes_def set_update_def upto.simps
  enumerate_eq_zip init_def py_sum_def example_index_def example_index_A_def fixed_param_def
  back_index_1_def back_index_9_def

section \<open>The claims\<close>

text \<open>
  C1 (round trip), as stated, for every index: after a successful \<open>insert(key, S)\<close> the
  result of \<open>query(S)\<close> contains \<open>key\<close>. The constructor accepts \<open>params = (0, 2)\<close>
  (the product is \<open>0 \<le> H\<close>); the index then has no band, \<open>insert\<close> writes no path and
  \<open>query\<close> returns the empty list.
\<close>

theorem roundtrip_no_band_counterexample:
  "(init (+) (fixed_param (1, 1)) (9 / 10) 4 [1 / 2, 1 / 2] (Some (0, 2)) :: pyerror + string lsh)
     = Inr (new_index 4 0 2)
   \<and> insert_lsh (new_index 4 0 2) ''A'' [1, 2, 3, 4] True
     = (Inr (), \<lparr>h = 4, b = 0, r = 2, hashranges = [], root = [], keys = {''A''}\<rparr>)
   \<and> query \<lparr>h = 4, b = 0, r = 2, hashranges = [], root = [], keys = {''A''}\<rparr> [1, 2, 3, 4]
     = (Inr [], \<lparr>h = 4, b = 0, r = 2, hashranges = [], root = [], keys = {''A''}\<rparr>)"
  by (simp add: eval_defs)

text \<open>
  C1, amended: for every index with at least one band (\<open>hashranges\<close> is not empty, which
  for a constructed index is \<open>b \<ge> 1\<close>), every key and every signature \<open>S\<close>, after a
  successful \<open>insert(key, S)\<close>, \<open>query(S)\<close> raises nothing and returns a list that contains
  \<open>key\<close>.
\<close>

theorem insert_query_roundtrip:
  assumes ne: "hashranges s \<noteq> []" and ins: "insert_lsh s key S chk = (Inr (), s')"
  shows "\<exists>res. query s' S = (Inr res, s') \<and> key \<in> set res"
proof -
  let ?ps = "band_paths (hashranges s) S"
  from insert_lsh_okD[OF ins] obtain root' where len: "int (length S) = h s"
    and ips: "insert_paths ?ps key (root s) = (None, root')"
    and s': "s' = s\<lparr>root := root', keys := insert key (keys s)\<rparr>"
    by blast
  have c: "\<forall>p\<in>set ?ps. \<forall>q\<in>set ?ps. compat q p"
    by (blast intro: band_paths_compat)
  have found: "\<exists>ks. query_path q root' = Inr (Some ks) \<and> key \<in> set ks" if "q \<in> set ?ps" for q
    using insert_paths_finds[OF ips c that] .
  then have "\<forall>q\<in>set ?ps. \<exists>r. query_path q root' = Inr r" by blast
  from query_paths_total[OF this] obtain res where res: "query_paths ?ps root' [] = Inr res"
    by blast
  from ne obtain q where q: "q \<in> set ?ps"
    by (cases ?ps) (auto simp: band_paths_Nil)
  from found[OF q] q have "key \<in> set res"
    unfolding query_paths_set[OF res] by auto
  with res len s' show ?thesis
    by (simp add: query_def)
qed

theorem insert_query_roundtrip_witness:
  "hashranges example_index \<noteq> []
   \<and> insert_lsh example_index ''A'' [1, 2, 3, 4] True = (Inr (), example_index_A)
   \<and> (\<exists>res. query example_index_A [1, 2, 3, 4] = (Inr res, example_index_A) \<and> ''A'' \<in> set res)"
proof -
  have ne: "hashranges example_index \<noteq> []"
    by (simp add: eval_defs)
  have ins: "insert_lsh example_index ''A'' [1, 2, 3, 4] True = (Inr (), example_index_A)"
    by (simp add: eval_defs)
  from insert_query_roundtrip[OF ne ins] ne ins show ?thesis by blast
qed

text \<open>
  C3 (duplicate rejection): if \<open>key\<close> is in the key set and \<open>len(S) = H\<close>,
  \<open>insert(key, S, check_duplication=True)\<close> raises (the assertion on the key fails, with
  the \<open>ValueError\<close> of the source as its argument), and the index it leaves behind is the
  index before the call: trie, key set and its size are unchanged.
\<close>

theorem duplicate_rejected_unchanged:
  assumes "key \<in> keys s" and "int (length S) = h s"
  shows "insert_lsh s key S True = (Inl (AssertionError (ValueError KeyExists)), s)"
  using assms by (simp add: insert_lsh_def)

theorem duplicate_rejected_unchanged_witness:
  "''A'' \<in> keys example_index_A \<and> int (length [5, 6, 7, 8 :: int]) = h example_index_A
   \<and> insert_lsh example_index_A ''A'' [5, 6, 7, 8] True
       = (Inl (AssertionError (ValueError KeyExists)), example_index_A)
   \<and> card (keys (snd (insert_lsh example_index_A ''A'' [5, 6, 7, 8] True))) = 1"
proof -
  have k: "''A'' \<in> keys example_index_A" by (simp add: example_index_A_def)
  have l: "int (length [5, 6, 7, 8 :: int]) = h example_index_A"
    by (simp add: example_index_A_def)
  have c: "card (keys example_index_A) = 1" by (simp add: example_index_A_def)
  from duplicate_rejected_unchanged[OF k l] k l c show ?thesis by simp
qed

text \<open>
  C4 (monotonicity): if \<open>k\<close> is in the result of \<open>query(S)\<close>, then after any sequence of
  successful \<open>insert\<close> calls \<open>query(S)\<close> still succeeds and \<open>k\<close> is still in its result;
  no key has left the result, and none has left the key set.
\<close>

theorem insert_sequence_monotone:
  assumes "inserts s calls = (Inr (), s')" and "query s S = (Inr res, s)" and "k \<in> set res"
  shows "\<exists>res'. query s' S = (Inr res', s') \<and> k \<in> set res' \<and> set res \<subseteq> set res'
           \<and> keys s \<subseteq> keys s'"
  using inserts_keeps[OF assms(1,2)] inserts_keys[OF assms(1)] assms(3) by blast

theorem insert_sequence_monotone_witness:
  "inserts example_index_A [(''B'', [1, 2, 7, 7], True), (''C'', [8, 8, 8, 8], False)]
     = (Inr (), snd (inserts example_index_A
                       [(''B'', [1, 2, 7, 7], True), (''C'', [8, 8, 8, 8], False)]))
   \<and> query example_index_A [1, 2, 9, 9] = (Inr [''A''], example_index_A)
   \<and> ''A'' \<in> set [''A'']
   \<and> (\<exists>res'. fst (query (snd (inserts example_index_A
                       [(''B'', [1, 2, 7, 7], True), (''C'', [8, 8, 8, 8], False)])) [1, 2, 9, 9])
               = Inr res' \<and> ''A'' \<in> set res')"
proof -
  let ?s' = "snd (inserts example_index_A
                    [(''B'', [1, 2, 7, 7], True), (''C'', [8, 8, 8, 8], False)])"
  have i: "inserts example_index_A [(''B'', [1, 2, 7, 7], True), (''C'', [8, 8, 8, 8], False)]
             = (Inr (), ?s')"
    by (simp add: eval_defs)
  have q: "query example_index_A [1, 2, 9, 9] = (Inr [''A''], example_index_A)"
    by (simp add: eval_defs)
  have k: "''A'' \<in> set [''A'']" by simp
  from insert_sequence_monotone[OF i q k] i q show ?thesis by auto
qed

text \<open>
  C5 (worked example): the constructor with \<open>H = 4\<close> and \<open>params = (2, 2)\<close> (threshold
  and weights at their defaults) returns the fresh index; after
  \<^verbatim>\<open>insert("A", [1,2,3,4])\<close>, \<^verbatim>\<open>query([1,2,9,9])\<close> returns the collection with the one
  element \<open>"A"\<close> and \<^verbatim>\<open>query([9,9,9,9])\<close> the empty one.
\<close>

theorem worked_example:
  "(init (+) opt (9 / 10) 4 [1 / 2, 1 / 2] (Some (2, 2)) :: pyerror + string lsh)
     = Inr example_index
   \<and> insert_lsh example_index ''A'' [1, 2, 3, 4] True = (Inr (), example_index_A)
   \<and> query example_index_A [1, 2, 9, 9] = (Inr [''A''], example_index_A)
   \<and> query example_index_A [9, 9, 9, 9] = (Inr [], example_index_A)"
  by (simp add: eval_defs)

text \<open>
  C6 (explicit params), as stated: a product \<open>b * r < H\<close> is accepted and leaves the
  trailing positions of the signature unused. The constructor accepts \<open>params = (1, -1)\<close>
  with \<open>H = 4\<close> (the product is \<open>-1 < 4\<close>); the one band is then \<^verbatim>\<open>S[0:-1]\<close>, and
  position 2, which is not below \<open>b * r\<close>, is used: the signatures \<open>[1,2,3,4]\<close> and
  \<open>[1,2,7,4]\<close> differ there only, and \<open>insert\<close> and \<open>query\<close> tell them apart.
\<close>

theorem init_negative_rows_counterexample:
  "(init (+) (fixed_param (1, 1)) (9 / 10) 4 [1 / 2, 1 / 2] (Some (1, - 1)) :: pyerror + string lsh)
     = Inr (new_index 4 1 (- 1))
   \<and> (1::int) * - 1 < 4
   \<and> hashranges (new_index 4 1 (- 1) :: string lsh) = [(0, - 1)]
   \<and> insert_lsh (new_index 4 1 (- 1)) ''A'' [1, 2, 3, 4] True
       \<noteq> insert_lsh (new_index 4 1 (- 1)) ''A'' [1, 2, 7, 4] True
   \<and> insert_lsh (new_index 4 1 (- 1)) ''A'' [1, 2, 3, 4] True = (Inr (), back_index_1)
   \<and> query back_index_1 [1, 2, 3, 4] = (Inr [''A''], back_index_1)
   \<and> query back_index_1 [1, 2, 7, 4] = (Inr [], back_index_1)"
  by (simp add: eval_defs)

text \<open>
  C6, amended: when the other arguments pass their checks (threshold in \<open>[0, 1]\<close>,
  \<open>num_perm \<ge> 2\<close>, every weight in \<open>[0, 1]\<close>, the weights summing to 1), the constructor
  with \<open>params = (b, r)\<close> fails exactly when \<open>b * r > num_perm\<close>, with the \<open>ValueError\<close>
  on the product; otherwise it returns an index with these \<open>b\<close> and \<open>r\<close> whose
  \<open>hashranges\<close> are \<open>(i * r, (i + 1) * r)\<close> for \<open>i = 0, ..., b - 1\<close>, in this order.
  If moreover \<open>r \<ge> 0\<close>, the positions of the signature from \<open>b * r\<close> on are unused: on
  every index with these \<open>hashranges\<close>, two signatures of length \<open>num_perm\<close> that agree
  on the positions \<open>[0, b * r)\<close> give the same \<open>insert\<close> and the same \<open>query\<close>.
\<close>

theorem init_explicit_params:
  assumes "0 \<le> threshold" "threshold \<le> 1" "2 \<le> n_perm"
    and "\<forall>w\<in>set weights. 0 \<le> w \<and> w \<le> 1" and "py_sum fadd weights = 1"
  shows "(isl (init fadd opt threshold n_perm weights (Some (pb, pr)) :: pyerror + 'k lsh)
            \<longleftrightarrow> pb * pr > n_perm)
       \<and> (pb * pr > n_perm \<longrightarrow>
            (init fadd opt threshold n_perm weights (Some (pb, pr)) :: pyerror + 'k lsh)
              = Inl (ValueError (ParamsProduct pb pr (pb * pr) n_perm)))
       \<and> (pb * pr \<le> n_perm \<longrightarrow>
            (\<exists>s :: 'k lsh. init fadd opt threshold n_perm weights (Some (pb, pr)) = Inr s
               \<and> h s = n_perm \<and> b s = pb \<and> r s = pr \<and> root s = [] \<and> keys s = {}
               \<and> hashranges s
                   = map (\<lambda>i. (int i * pr, (int i + 1) * pr)) [0..<nat pb]
               \<and> (0 \<le> pr \<longrightarrow>
                    (\<forall>(t :: 'k lsh) S1 S2 key chk.
                       hashranges t = hashranges s
                       \<and> int (length S1) = n_perm \<and> int (length S2) = n_perm
                       \<and> take (nat (pb * pr)) S1 = take (nat (pb * pr)) S2
                       \<longrightarrow> insert_lsh t key S1 chk = insert_lsh t key S2 chk
                           \<and> query t S1 = query t S2))))"
proof -
  let ?s = "new_index n_perm pb pr :: 'k lsh"
  have unused: "insert_lsh t key S1 chk = insert_lsh t key S2 chk \<and> query t S1 = query t S2"
    if "0 \<le> pr" "hashranges t = hashranges ?s"
      "int (length S1) = n_perm" "int (length S2) = n_perm"
      "take (nat (pb * pr)) S1 = take (nat (pb * pr)) S2"
    for t :: "'k lsh" and S1 S2 key chk
  proof -
    from that(2) have hr: "hashranges t = map (\<lambda>i. (i * pr, (i + 1) * pr)) [0..pb - 1]"
      by (simp add: new_index_def)
    from that(3,4) have len: "length S1 = length S2" by simp
    from calls_agree[OF hr that(1) len that(5)] show ?thesis .
  qed
  have fresh: "h ?s = n_perm \<and> b ?s = pb \<and> r ?s = pr \<and> root ?s = [] \<and> keys ?s = {}
      \<and> hashranges ?s = map (\<lambda>i. (int i * pr, (int i + 1) * pr)) [0..<nat pb]"
    by (simp add: new_index_def upto_as_upt comp_def)
  show ?thesis
    unfolding init_params[OF assms]
    using unused fresh by auto
qed

theorem init_explicit_params_witness:
  "isl (init (+) (fixed_param (1, 1)) (9 / 10) 128 [1 / 2, 1 / 2] (Some (5, 50))
          :: pyerror + string lsh)
   \<and> \<not> isl (init (+) (fixed_param (1, 1)) (9 / 10) 128 [1 / 2, 1 / 2] (Some (4, 16))
          :: pyerror + string lsh)
   \<and> (init (+) (fixed_param (1, 1)) (9 / 10) 6 [1 / 2, 1 / 2] (Some (2, 2))
          :: pyerror + string lsh) = Inr (new_index 6 2 2)
   \<and> (2::int) * 2 \<le> 6 \<and> (0::int) \<le> 2
   \<and> int (length [1, 2, 3, 4, 5, 6 :: int]) = 6 \<and> int (length [1, 2, 3, 4, 7, 8 :: int]) = 6
   \<and> take (nat (2 * 2)) [1, 2, 3, 4, 5, 6 :: int] = take (nat (2 * 2)) [1, 2, 3, 4, 7, 8]
   \<and> insert_lsh (new_index 6 2 2) ''B'' [1, 2, 3, 4, 5, 6] True
       = insert_lsh (new_index 6 2 2) ''B'' [1, 2, 3, 4, 7, 8] True
   \<and> query (new_index 6 2 2 :: string lsh) [1, 2, 3, 4, 5, 6]
       = query (new_index 6 2 2) [1, 2, 3, 4, 7, 8]"
proof -
  have a: "(0::real) \<le> 9 / 10" "(9 / 10 :: real) \<le> 1" "(2::int) \<le> 128"
    "\<forall>w\<in>set [1 / 2, 1 / 2 :: real]. 0 \<le> w \<and> w \<le> 1" "py_sum (+) [1 / 2, 1 / 2] = 1"
    by (simp_all add: py_sum_def)
  have a6: "(0::real) \<le> 9 / 10" "(9 / 10 :: real) \<le> 1" "(2::int) \<le> 6"
    "\<forall>w\<in>set [1 / 2, 1 / 2 :: real]. 0 \<le> w \<and> w \<le> 1" "py_sum (+) [1 / 2, 1 / 2] = 1"
    by (simp_all add: py_sum_def)
  have 1: "isl (init (+) (fixed_param (1, 1)) (9 / 10) 128 [1 / 2, 1 / 2] (Some (5, 50))
          :: pyerror + string lsh)"
    using init_explicit_params[OF a, of "fixed_param (1, 1)" 5 50, where ?'k = string] by simp
  have 2: "\<not> isl (init (+) (fixed_param (1, 1)) (9 / 10) 128 [1 / 2, 1 / 2] (Some (4, 16))
          :: pyerror + string lsh)"
    using init_explicit_params[OF a, of "fixed_param (1, 1)" 4 16, where ?'k = string] by simp
  have le: "(2::int) * 2 \<le> 6" and r0: "(0::int) \<le> 2" by simp_all
  have l1: "int (length [1, 2, 3, 4, 5, 6 :: int]) = 6"
    and l2: "int (length [1, 2, 3, 4, 7, 8 :: int]) = 6"
    and tk: "take (nat (2 * 2)) [1, 2, 3, 4, 5, 6 :: int] = take (nat (2 * 2)) [1, 2, 3, 4, 7, 8]"
    by simp_all
  from init_explicit_params[OF a6, of "fixed_param (1, 1)" 2 2, where ?'k = string] le
  obtain s :: "string lsh"
    where s: "init (+) (fixed_param (1, 1)) (9 / 10) 6 [1 / 2, 1 / 2] (Some (2, 2)) = Inr s"
      and un: "0 \<le> (2::int) \<longrightarrow>
                 (\<forall>(t :: string lsh) S1 S2 key chk.
                    hashranges t = hashranges s
                    \<and> int (length S1) = 6 \<and> int (length S2) = 6
                    \<and> take (nat (2 * 2)) S1 = take (nat (2 * 2)) S2
                    \<longrightarrow> insert_lsh t key S1 chk = insert_lsh t key S2 chk
                        \<and> query t S1 = query t S2)"
    by blast
  have s6: "(init (+) (fixed_param (1, 1)) (9 / 10) 6 [1 / 2, 1 / 2] (Some (2, 2))
          :: pyerror + string lsh) = Inr (new_index 6 2 2)"
    by (simp add: init_def py_sum_def)
  with s have eq: "s = new_index 6 2 2" by simp
  from un r0 l1 l2 tk
  have "insert_lsh s ''B'' [1, 2, 3, 4, 5, 6] True = insert_lsh s ''B'' [1, 2, 3, 4, 7, 8] True
      \<and> query s [1, 2, 3, 4, 5, 6] = query s [1, 2, 3, 4, 7, 8]"
    by blast
  with 1 2 s6 le r0 l1 l2 tk show ?thesis
    unfolding eq by blast
qed

text \<open>
  C7 (query is read-only and idempotent): the index after \<open>query(S)\<close> is the index
  before it, in every component, and a second \<open>query(S)\<close> returns what the first did.
\<close>

theorem query_read_only:
  "snd (query s S) = s \<and> query (snd (query s S)) S = query s S"
  by (simp add: query_def)

text \<open>
  C10 (validation comes first): whatever \<open>params\<close> is, a threshold outside \<open>[0, 1]\<close>,
  \<open>num_perm < 2\<close>, a weight outside \<open>[0, 1]\<close> or weights whose sum is not 1 make the
  constructor fail with the \<open>ValueError\<close> of the first of these checks that fails, in the
  order of the source; \<open>params\<close> and the optimizer have no part in the result.
\<close>

theorem init_validation_first:
  assumes "threshold > 1 \<or> threshold < 0 \<or> n_perm < 2
           \<or> (\<exists>w\<in>set weights. w < 0 \<or> w > 1) \<or> py_sum fadd weights \<noteq> 1"
  shows "init fadd opt threshold n_perm weights params =
           Inl (ValueError
                 (if threshold > 1 \<or> threshold < 0 then ThresholdRange
                  else if n_perm < 2 then TooFewPermutations
                  else if (\<exists>w\<in>set weights. w < 0 \<or> w > 1) then WeightRange
                  else WeightSum))"
  using assms by (auto simp: init_def list_ex_iff)

theorem init_validation_first_witness:
  "(init (+) (fixed_param (1, 1)) (3 / 2) 128 [1 / 2, 1 / 2] (Some (2, 2)) :: pyerror + string lsh)
     = Inl (ValueError ThresholdRange)
   \<and> (init (+) (fixed_param (1, 1)) (9 / 10) 128 [3 / 10, 3 / 10] (Some (2, 2))
        :: pyerror + string lsh)
     = Inl (ValueError WeightSum)"
proof -
  have 1: "(3 / 2 :: real) > 1 \<or> (3 / 2 :: real) < 0 \<or> (128::int) < 2
           \<or> (\<exists>w\<in>set [1 / 2, 1 / 2 :: real]. w < 0 \<or> w > 1) \<or> py_sum (+) [1 / 2, 1 / 2] \<noteq> 1"
    by simp
  have 2: "(9 / 10 :: real) > 1 \<or> (9 / 10 :: real) < 0 \<or> (128::int) < 2
           \<or> (\<exists>w\<in>set [3 / 10, 3 / 10 :: real]. w < 0 \<or> w > 1)
           \<or> py_sum (+) [3 / 10, 3 / 10] \<noteq> 1"
    by (simp add: py_sum_def)
  from init_validation_first[OF 1, of "fixed_param (1, 1)" "Some (2, 2)", where ?'a = string]
       init_validation_first[OF 2, of "fixed_param (1, 1)" "Some (2, 2)", where ?'a = string]
  show ?thesis by (simp add: py_sum_def)
qed

text \<open>
  C2 (query semantics): on a well-formed index (every index that the constructor and
  \<open>insert\<close> build is one: \<open>wf_new_index\<close>, \<open>wf_insert\<close>) and for a signature \<open>S\<close> of
  length \<open>H\<close>, \<open>query(S)\<close> raises nothing and leaves the index as it is; its result has no
  duplicates, and its elements are exactly the keys of the posting lists at the end of
  the paths \<^verbatim>\<open>[i] ++ S[i*r:(i+1)*r]\<close>, \<open>0 \<le> i < b\<close>, that are present in the trie. A
  band whose path is absent (\<open>posting_at\<close> is \<open>None\<close>) contributes nothing.
\<close>

theorem query_semantics:
  assumes wf: "well_formed s" and len: "int (length S) = h s"
  shows "\<exists>res. query s S = (Inr res, s) \<and> distinct res
     \<and> set res = {k. \<exists>i\<in>{0..<b s}. \<exists>ks.
                       posting_at (Dict (root s)) (band_path (r s) S i) = Some ks \<and> k \<in> set ks}"
proof -
  let ?ps = "band_paths (hashranges s) S"
  from wf_query[OF wf len] obtain res where q: "query s S = (Inr res, s)" by blast
  from query_okD[OF q] have res: "query_paths ?ps (root s) [] = Inr res" by simp
  from wf have ps: "set ?ps = band_path (r s) S ` {0..<b s}"
    by (simp add: well_formed_def band_paths_ranges set_upto_less)
  have each: "query_path p (root s) = Inr (posting_at (Dict (root s)) p)" if "p \<in> set ?ps" for p
    using query_paths_each[OF res that] query_path_posting_at by fastforce
  have "set res = {k. \<exists>p\<in>set ?ps. \<exists>ks. posting_at (Dict (root s)) p = Some ks \<and> k \<in> set ks}"
    unfolding query_paths_set[OF res] using each by auto
  also have "\<dots> = {k. \<exists>i\<in>{0..<b s}. \<exists>ks.
                       posting_at (Dict (root s)) (band_path (r s) S i) = Some ks \<and> k \<in> set ks}"
    unfolding ps by blast
  finally show ?thesis
    using q query_paths_distinct[OF res] by simp
qed

theorem query_semantics_witness:
  "well_formed example_index_A \<and> int (length [1, 2, 9, 9 :: int]) = h example_index_A
   \<and> (\<exists>res. query example_index_A [1, 2, 9, 9] = (Inr res, example_index_A) \<and> distinct res
     \<and> set res = {k. \<exists>i\<in>{0..<b example_index_A}. \<exists>ks.
          posting_at (Dict (root example_index_A)) (band_path (r example_index_A) [1, 2, 9, 9] i)
            = Some ks \<and> k \<in> set ks})"
proof -
  have w: "well_formed example_index_A"
    by (simp add: well_formed_def example_index_A_def upto.simps slice_len_def clamp_index_def
        numeral_2_eq_2)
  have l: "int (length [1, 2, 9, 9 :: int]) = h example_index_A"
    by (simp add: example_index_A_def)
  from query_semantics[OF w l] w l show ?thesis by blast
qed

text \<open>
  C8 (trailing positions), as stated, for every index with \<open>b * r < H\<close>. The constructor
  accepts \<open>params = (1, -1)\<close> (the product is \<open>-1 \<le> H\<close>); the one band is then the slice
  \<^verbatim>\<open>S[0:-1]\<close>, all positions but the last. The signatures \<open>[1,2,3,4]\<close> and \<open>[9,2,3,4]\<close>
  agree on the positions \<open>[0, b * r)\<close>, of which there are none, and the two inserts
  build different tries; the two queries on the first of them return different results.
\<close>

theorem trailing_positions_negative_rows_counterexample:
  "(init (+) (fixed_param (1, 1)) (9 / 10) 4 [1 / 2, 1 / 2] (Some (1, - 1)) :: pyerror + string lsh)
     = Inr (new_index 4 1 (- 1))
   \<and> b (new_index 4 1 (- 1) :: string lsh) * r (new_index 4 1 (- 1) :: string lsh)
       < h (new_index 4 1 (- 1) :: string lsh)
   \<and> take (nat (1 * - 1)) [1, 2, 3, 4 :: int] = take (nat (1 * - 1)) [9, 2, 3, 4]
   \<and> insert_lsh (new_index 4 1 (- 1)) ''A'' [1, 2, 3, 4] True = (Inr (), back_index_1)
   \<and> insert_lsh (new_index 4 1 (- 1)) ''A'' [9, 2, 3, 4] True = (Inr (), back_index_9)
   \<and> back_index_1 \<noteq> back_index_9
   \<and> query back_index_1 [1, 2, 3, 4] = (Inr [''A''], back_index_1)
   \<and> query back_index_1 [9, 2, 3, 4] = (Inr [], back_index_1)"
  by (simp add: eval_defs back_index_1_def back_index_9_def)

text \<open>
  C8, amended: for every index with the ranges of its \<open>b\<close> and \<open>r\<close>, with \<open>r \<ge> 0\<close> and
  \<open>b * r < H\<close>, and any two signatures of length \<open>H\<close> that agree on the positions
  \<open>[0, b * r)\<close>: \<open>insert\<close> of a key with the one and with the other have the same outcome
  and leave the same index, and the two queries return the same.
\<close>

theorem trailing_positions_unused:
  assumes hr: "hashranges s = map (\<lambda>i. (i * r s, (i + 1) * r s)) [0..b s - 1]"
    and r0: "0 \<le> r s" and lt: "b s * r s < h s"
    and l1: "int (length S1) = h s" and l2: "int (length S2) = h s"
    and agree: "take (nat (b s * r s)) S1 = take (nat (b s * r s)) S2"
  shows "insert_lsh s key S1 chk = insert_lsh s key S2 chk \<and> query s S1 = query s S2"
proof -
  have "band_paths (hashranges s) S1 = band_paths (hashranges s) S2"
    unfolding hr by (rule band_paths_agree[OF r0 agree])
  moreover from l1 l2 have "length S1 = length S2" by simp
  ultimately show ?thesis by (simp add: insert_lsh_def query_def)
qed

theorem trailing_positions_unused_witness:
  "hashranges (new_index 6 2 2 :: string lsh)
     = map (\<lambda>i. (i * r (new_index 6 2 2 :: string lsh), (i + 1) * r (new_index 6 2 2 :: string lsh)))
           [0..b (new_index 6 2 2 :: string lsh) - 1]
   \<and> 0 \<le> r (new_index 6 2 2 :: string lsh)
   \<and> b (new_index 6 2 2 :: string lsh) * r (new_index 6 2 2 :: string lsh)
       < h (new_index 6 2 2 :: string lsh)
   \<and> int (length [1, 2, 3, 4, 5, 6 :: int]) = h (new_index 6 2 2 :: string lsh)
   \<and> int (length [1, 2, 3, 4, 7, 8 :: int]) = h (new_index 6 2 2 :: string lsh)
   \<and> take (nat (b (new_index 6 2 2 :: string lsh) * r (new_index 6 2 2 :: string lsh)))
          [1, 2, 3, 4, 5, 6 :: int]
     = take (nat (b (new_index 6 2 2 :: string lsh) * r (new_index 6 2 2 :: string lsh)))
          [1, 2, 3, 4, 7, 8]
   \<and> insert_lsh (new_index 6 2 2) ''B'' [1, 2, 3, 4, 5, 6] True
     = insert_lsh (new_index 6 2 2) ''B'' [1, 2, 3, 4, 7, 8] True
   \<and> query (new_index 6 2 2 :: string lsh) [1, 2, 3, 4, 5, 6]
     = query (new_index 6 2 2) [1, 2, 3, 4, 7, 8]"
proof -
  let ?s = "new_index 6 2 2 :: string lsh"
  have hr: "hashranges ?s = map (\<lambda>i. (i * r ?s, (i + 1) * r ?s)) [0..b ?s - 1]"
    by (simp add: new_index_def)
  have r0: "0 \<le> r ?s" by (simp add: new_index_def)
  have lt: "b ?s * r ?s < h ?s" by (simp add: new_index_def)
  have l1: "int (length [1, 2, 3, 4, 5, 6 :: int]) = h ?s" by (simp add: new_index_def)
  have l2: "int (length [1, 2, 3, 4, 7, 8 :: int]) = h ?s" by (simp add: new_index_def)
  have ag: "take (nat (b ?s * r ?s)) [1, 2, 3, 4, 5, 6 :: int]
          = take (nat (b ?s * r ?s)) [1, 2, 3, 4, 7, 8]"
    by (simp add: new_index_def)
  from trailing_positions_unused[OF hr r0 lt l1 l2 ag, of "''B''" True] hr r0 lt l1 l2 ag
  show ?thesis by blast
qed

text \<open>
  C9 (batch builder, input that is not iterable), as stated: \<open>compute_minhashes\<close> fails,
  and \<open>compute_minhashes_generator\<close> fails at the call. The second is a generator
  function: the call returns a generator and raises nothing, whatever the argument.
\<close>

theorem generator_call_counterexample:
  "(compute_minhashes_generator (NotIterable :: int list pyobj)
      (None :: (int list, int) minhash option))
     = Inr (Created NotIterable None)"
  by (simp add: compute_minhashes_generator_def)

text \<open>
  C9, amended: when \<open>items\<close> is not iterable, \<open>compute_minhashes(items, template)\<close>
  fails; \<open>compute_minhashes_generator(items, template)\<close> returns a generator without
  failing, and the first advance of this generator fails, before any signature is
  produced.
\<close>

theorem not_iterable_rejected:
  "isl (compute_minhashes compute_hashvalues default_minhash NotIterable m)
   \<and> (\<exists>g. compute_minhashes_generator NotIterable m = Inr g
        \<and> isl (fst (gen_next compute_hashvalues default_minhash g)))"
  by (simp add: compute_minhashes_def compute_minhashes_generator_def)

end
